theory Spec2Isabelle
  imports Main
begin

section \<open>Quine-McCluskey prime implicant generation (QuinMcAlgo.py)\<close>

text \<open>
  A term is a Python string, here a \<open>string\<close> (a list of characters). Input minterms
  use the symbols 0 and 1; merged terms also carry the wildcard symbol -.
  The methods \<open>parse_pla\<close>, \<open>write_pla\<close> and \<open>main\<close> only do file I/O and are not
  modelled.
\<close>

subsection \<open>combine_terms\<close>

text \<open>
  The body of \<open>combine_terms\<close> is a loop over \<open>zip(term1, term2)\<close> that carries the
  list \<open>combined\<close> and the flag \<open>found_difference\<close>. The early \<open>return None\<close> is the
  result \<open>None\<close>; falling out of the loop returns the joined list. Python's \<open>zip\<close>
  stops at the shorter argument, and so does HOL's.
\<close>

fun combine_loop :: "(char \<times> char) list \<Rightarrow> string \<Rightarrow> bool \<Rightarrow> string option" where
  "combine_loop [] combined found_difference = Some combined"
| "combine_loop ((b1, b2) # rest) combined found_difference =
     (if b1 = b2 then combine_loop rest (combined @ [b1]) found_difference
      else if \<not> found_difference then combine_loop rest (combined @ [CHR ''-'']) True
      else None)"

definition combine_terms :: "string \<Rightarrow> string \<Rightarrow> string option" where
  "combine_terms term1 term2 = combine_loop (zip term1 term2) [] False"

subsection \<open>group_by_ones\<close>

text \<open>\<open>term.count('1')\<close>: the number of occurrences of the symbol 1.\<close>

definition count_ones :: "string \<Rightarrow> nat" where
  "count_ones t = length (filter (\<lambda>c. c = CHR ''1'') t)"

text \<open>
  A Python dict from population counts to lists of terms is an association list in
  insertion order. \<open>d.setdefault(k, []).append(v)\<close> appends \<open>v\<close> to the list stored
  under \<open>k\<close>, creating the entry at the end of the dict when \<open>k\<close> is new.
\<close>

type_synonym group_dict = "(nat \<times> string list) list"

fun setdefault_append :: "group_dict \<Rightarrow> nat \<Rightarrow> string \<Rightarrow> group_dict" where
  "setdefault_append [] k v = [(k, [v])]"
| "setdefault_append ((k', vs) # d) k v =
     (if k' = k then (k', vs @ [v]) # d else (k', vs) # setdefault_append d k v)"

definition group_by_ones :: "string list \<Rightarrow> group_dict" where
  "group_by_ones terms =
     foldl (\<lambda>groups t. setdefault_append groups (count_ones t) t) [] terms"

text \<open>
  \<open>groups[g]\<close>. The source only indexes with keys taken from \<open>groups.keys()\<close>, so the
  KeyError of a missing key cannot happen there; the model returns the empty list for it.
\<close>

definition getitem :: "group_dict \<Rightarrow> nat \<Rightarrow> string list" where
  "getitem d k = (case map_of d k of Some vs \<Rightarrow> vs | None \<Rightarrow> [])"

subsection \<open>minimize\<close>

text \<open>
  The innermost statement of the round: \<open>if combined:\<close> is false for \<open>None\<close> and for
  the empty string. The pair carried through the loops is \<open>(next_groups, used)\<close>.
\<close>

definition combine_step ::
  "nat \<Rightarrow> string \<Rightarrow> string \<Rightarrow> group_dict \<times> string set \<Rightarrow> group_dict \<times> string set" where
  "combine_step g1 term1 term2 st =
     (case combine_terms term1 term2 of
        None \<Rightarrow> st
      | Some combined \<Rightarrow>
          if combined \<noteq> [] then
            (setdefault_append (fst st) g1 combined, insert term2 (insert term1 (snd st)))
          else st)"

text \<open>The two loops \<open>for term1 in groups[g1]: for term2 in groups[g2]\<close>.\<close>

definition combine_groups ::
  "group_dict \<Rightarrow> nat \<times> nat \<Rightarrow> group_dict \<times> string set \<Rightarrow> group_dict \<times> string set" where
  "combine_groups groups gp st =
     fold (\<lambda>term1. fold (\<lambda>term2. combine_step (fst gp) term1 term2) (getitem groups (snd gp)))
       (getitem groups (fst gp)) st"

text \<open>\<open>zip(group_keys, group_keys[1:])\<close> with \<open>group_keys = sorted(groups.keys())\<close>.\<close>

definition key_pairs :: "group_dict \<Rightarrow> (nat \<times> nat) list" where
  "key_pairs groups = (let group_keys = sort (map fst groups) in zip group_keys (tl group_keys))"

definition combine_round :: "group_dict \<Rightarrow> group_dict \<times> string set" where
  "combine_round groups = fold (combine_groups groups) (key_pairs groups) ([], {})"

text \<open>
  The variables that live across rounds of the \<open>while\<close> loop: \<open>groups\<close>,
  \<open>unchecked\<close> and \<open>checked\<close> (the last two are keywords of Isabelle, hence the
  suffix).
\<close>

record state =
  groups :: group_dict
  unchecked_set :: "string set"
  checked_set :: "string set"

text \<open>
  One execution of the loop body. \<open>set(itertools.chain(*next_groups.values()))\<close> is the
  set of all terms stored in \<open>next_groups\<close>.
\<close>

definition round_step :: "state \<Rightarrow> state" where
  "round_step s =
     (let (next_groups, used) = combine_round (groups s) in
      \<lparr> groups = next_groups,
        unchecked_set = set (concat (map snd next_groups)),
        checked_set = checked_set s \<union> (unchecked_set s - used) \<rparr>)"

definition init_state :: "string list \<Rightarrow> state" where
  "init_state minterms =
     \<lparr> groups = group_by_ones minterms, unchecked_set = set minterms, checked_set = {} \<rparr>"

text \<open>
  \<open>while groups:\<close> runs as long as the dict is not empty. Every round removes at least
  one key (only the lower key of a pair of neighbouring keys is ever stored), which is
  the termination argument below.
\<close>

function minimize_loop :: "state \<Rightarrow> string set" where
  "minimize_loop s = (if groups s = [] then checked_set s else minimize_loop (round_step s))"
  by pat_completeness auto

text \<open>
  \<open>minimize\<close> returns \<open>list(prime_implicants)\<close>, a list in the iteration order of a
  Python set, which the language leaves open: the result is modelled as the set itself.
\<close>

definition minimize :: "string list \<Rightarrow> string set" where
  "minimize minterms = minimize_loop (init_state minterms)"

subsection \<open>Notions used by the properties\<close>

text \<open>
  A term \<open>t\<close> subsumes \<open>m\<close> when both have the same length and every position of
  \<open>t\<close> that is not the wildcard equals the same position of \<open>m\<close>.
\<close>

definition subsumes :: "string \<Rightarrow> string \<Rightarrow> bool" where
  "subsumes t m = list_all2 (\<lambda>a b. a = CHR ''-'' \<or> a = b) t m"

text \<open>Strings over 0 and 1, and input lists of such strings of one length \<open>n\<close>.\<close>

definition binary :: "string \<Rightarrow> bool" where
  "binary m = list_all (\<lambda>c. c = CHR ''0'' \<or> c = CHR ''1'') m"

definition minterms_ok :: "nat \<Rightarrow> string list \<Rightarrow> bool" where
  "minterms_ok n minterms = list_all (\<lambda>m. length m = n \<and> binary m) minterms"

text \<open>Strings over 0, 1 and the wildcard.\<close>

definition ternary :: "string \<Rightarrow> bool" where
  "ternary t = list_all (\<lambda>c. c = CHR ''0'' \<or> c = CHR ''1'' \<or> c = CHR ''-'') t"

subsection \<open>Auxiliary notions for the proofs\<close>

text \<open>
  The closed form of \<open>combine_terms\<close>: \<open>diffs\<close> counts the differing positions of the
  zipped terms and \<open>merged\<close> is the string the loop builds.
\<close>

definition diffs :: "(char \<times> char) list \<Rightarrow> nat" where
  "diffs ps = length (filter (\<lambda>(x, y). x \<noteq> y) ps)"

definition merged :: "(char \<times> char) list \<Rightarrow> string" where
  "merged ps = map (\<lambda>(x, y). if x = y then x else CHR ''-'') ps"

text \<open>
  The set view of a dict: the pairs of a key and a term stored under it. A dict built by
  \<open>setdefault_append\<close> has distinct keys and no empty list.
\<close>

definition gpairs :: "group_dict \<Rightarrow> (nat \<times> string) set" where
  "gpairs d = {(k, t). \<exists>ts. (k, ts) \<in> set d \<and> t \<in> set ts}"

definition wf_dict :: "group_dict \<Rightarrow> bool" where
  "wf_dict d = (distinct (map fst d) \<and> [] \<notin> snd ` set d)"

text \<open>What one execution of the innermost statement adds to \<open>next_groups\<close>.\<close>

definition hit :: "nat \<Rightarrow> string \<Rightarrow> string \<Rightarrow> (nat \<times> string) set" where
  "hit g t1 t2 =
     (case combine_terms t1 t2 of None \<Rightarrow> {} | Some c \<Rightarrow> if c \<noteq> [] then {(g, c)} else {})"

text \<open>
  The invariant of the round loop for inputs of one length \<open>n\<close>: the dict is well
  formed, \<open>unchecked\<close> is the set of the terms it stores, and every stored term has
  length \<open>n\<close> and as many symbols 1 as its key says.
\<close>

definition round_inv :: "nat \<Rightarrow> state \<Rightarrow> bool" where
  "round_inv n s =
     (wf_dict (groups s) \<and> unchecked_set s = snd ` gpairs (groups s) \<and>
      (\<forall>(k, t)\<in>gpairs (groups s). length t = n \<and> count_ones t = k))"

section \<open>Properties of combine_terms\<close>

lemma diffs_Nil [simp]: "diffs [] = 0"
  by (simp add: diffs_def)

lemma merged_Nil [simp]: "merged [] = []"
  by (simp add: merged_def)

lemma combine_loop_closed:
  "combine_loop ps acc found =
     (if 2 \<le> diffs ps + (if found then 1 else 0) then None else Some (acc @ merged ps))"
  by (induction ps acc found rule: combine_loop.induct) (auto simp: merged_def diffs_def)

lemma combine_terms_closed:
  "combine_terms a b = (if 2 \<le> diffs (zip a b) then None else Some (merged (zip a b)))"
  by (simp add: combine_terms_def combine_loop_closed)

lemma diffs_same [simp]: "diffs (zip p p) = 0"
  by (induction p) (auto simp: diffs_def)

lemma merged_same [simp]: "merged (zip p p) = p"
  by (induction p) (auto simp: merged_def)

lemma diffs_append [simp]: "diffs (ps @ qs) = diffs ps + diffs qs"
  by (simp add: diffs_def)

lemma merged_append [simp]: "merged (ps @ qs) = merged ps @ merged qs"
  by (simp add: merged_def)

lemma diffs_zero_eq:
  "length a = length b \<Longrightarrow> diffs (zip a b) = 0 \<Longrightarrow> a = b"
  by (induction a b rule: list_induct2) (auto simp: diffs_def split: if_splits)

lemma diffs_one_split:
  "length a = length b \<Longrightarrow> diffs (zip a b) = 1 \<Longrightarrow>
     \<exists>p x y s. a = p @ x # s \<and> b = p @ y # s \<and> x \<noteq> y"
proof (induction a b rule: list_induct2)
  case Nil
  then show ?case by (simp add: diffs_def)
next
  case (Cons x xs y ys)
  show ?case
  proof (cases "x = y")
    case True
    with Cons.prems have "diffs (zip xs ys) = 1" by (simp add: diffs_def)
    from Cons.IH [OF this] obtain p u v s
      where "xs = p @ u # s" "ys = p @ v # s" "u \<noteq> v" by blast
    with True have "x # xs = (x # p) @ u # s \<and> y # ys = (x # p) @ v # s \<and> u \<noteq> v"
      by simp
    then show ?thesis by blast
  next
    case False
    with Cons.prems have "diffs (zip xs ys) = 0" by (simp add: diffs_def)
    with Cons.hyps have "xs = ys" by (rule diffs_zero_eq)
    with False have "x # xs = [] @ x # ys \<and> y # ys = [] @ y # ys \<and> x \<noteq> y" by simp
    then show ?thesis by blast
  qed
qed

lemma diffs_Cons [simp]: "diffs ((x, y) # ps) = (if x = y then 0 else 1) + diffs ps"
  by (simp add: diffs_def)

lemma merged_Cons [simp]:
  "merged ((x, y) # ps) = (if x = y then x else CHR ''-'') # merged ps"
  by (simp add: merged_def)

lemma diffs_split_one [simp]: "x \<noteq> y \<Longrightarrow> diffs (zip (p @ x # s) (p @ y # s)) = 1"
  by simp

lemma merged_split_one [simp]:
  "x \<noteq> y \<Longrightarrow> merged (zip (p @ x # s) (p @ y # s)) = p @ CHR ''-'' # s"
  by simp

text \<open>The shape of every successful combination of two terms of one length.\<close>

lemma combine_terms_SomeE:
  assumes "combine_terms a b = Some c" and "length a = length b"
  obtains (same) "a = b" "c = a"
  | (one) p x y s where "a = p @ x # s" "b = p @ y # s" "x \<noteq> y" "c = p @ CHR ''-'' # s"
proof -
  from assms(1) have d: "diffs (zip a b) \<le> 1" and c: "c = merged (zip a b)"
    by (auto simp: combine_terms_closed split: if_splits)
  show thesis
  proof (cases "diffs (zip a b) = 0")
    case True
    from diffs_zero_eq [OF assms(2) True] have "a = b" .
    with c same show thesis by simp
  next
    case False
    with d have "diffs (zip a b) = 1" by simp
    from diffs_one_split [OF assms(2) this] obtain p x y s
      where *: "a = p @ x # s" "b = p @ y # s" "x \<noteq> y" by blast
    with c have "c = p @ CHR ''-'' # s" by simp
    with * one show thesis by blast
  qed
qed

lemma count_ones_append [simp]: "count_ones (p @ s) = count_ones p + count_ones s"
  by (simp add: count_ones_def)

lemma count_ones_Cons [simp]:
  "count_ones (x # s) = (if x = CHR ''1'' then 1 else 0) + count_ones s"
  by (simp add: count_ones_def)

lemma count_ones_Nil [simp]: "count_ones [] = 0"
  by (simp add: count_ones_def)

lemma subsumes_refl_part: "list_all2 (\<lambda>a b. a = CHR ''-'' \<or> a = b) p p"
  by (simp add: list_all2_same)

lemma combine_length:
  "combine_terms a b = Some c \<Longrightarrow> length a = length b \<Longrightarrow> length c = length a"
  by (erule combine_terms_SomeE) auto

lemma combine_subsumes:
  "combine_terms a b = Some c \<Longrightarrow> length a = length b \<Longrightarrow> subsumes c a \<and> subsumes c b"
  by (erule combine_terms_SomeE)
    (auto simp: subsumes_def list_all2_same list_all2_appendI)

lemma subsumes_trans_comb:
  "subsumes c a \<Longrightarrow> subsumes a m \<Longrightarrow> subsumes c m"
  unfolding subsumes_def
  by (rule list_all2_trans [where ?P1.0 = "\<lambda>a b. a = CHR ''-'' \<or> a = b"
        and ?P2.0 = "\<lambda>a b. a = CHR ''-'' \<or> a = b"]) auto

lemma combine_count_close:
  "combine_terms a b = Some c \<Longrightarrow> length a = length b \<Longrightarrow>
     count_ones a \<le> count_ones b + 1 \<and> count_ones b \<le> count_ones a + 1"
  by (erule combine_terms_SomeE) auto

lemma combine_count_lower:
  "combine_terms a b = Some c \<Longrightarrow> length a = length b \<Longrightarrow> count_ones a < count_ones b \<Longrightarrow>
     count_ones c = count_ones a"
  by (erule combine_terms_SomeE) (auto split: if_splits)

lemma ternary_append [simp]: "ternary (p @ s) = (ternary p \<and> ternary s)"
  by (simp add: ternary_def)

lemma ternary_Cons [simp]:
  "ternary (x # s) = ((x = CHR ''0'' \<or> x = CHR ''1'' \<or> x = CHR ''-'') \<and> ternary s)"
  by (simp add: ternary_def)

lemma combine_ternary:
  "combine_terms a b = Some c \<Longrightarrow> length a = length b \<Longrightarrow> ternary a \<Longrightarrow> ternary c"
  by (erule combine_terms_SomeE) auto

lemma binary_ternary: "binary m \<Longrightarrow> ternary m"
  by (auto simp: binary_def ternary_def list_all_iff)

lemma combine_sound:
  assumes "combine_terms a b = Some c" "length a = length b" "count_ones a < count_ones b"
    "ternary a" "subsumes c m" "binary m"
  shows "subsumes a m \<or> subsumes b m"
  using assms(1,2)
proof (cases rule: combine_terms_SomeE)
  case same
  with assms(3) show ?thesis by simp
next
  case (one p x y s)
  with assms(3) have y: "y = CHR ''1''" and x: "x \<noteq> CHR ''1''"
    by (auto split: if_splits)
  with assms(4) one have x': "x = CHR ''0'' \<or> x = CHR ''-''" by auto
  from assms(5) one obtain mp mx ms where m: "m = mp @ mx # ms"
    and mp: "list_all2 (\<lambda>a b. a = CHR ''-'' \<or> a = b) p mp"
    and ms: "list_all2 (\<lambda>a b. a = CHR ''-'' \<or> a = b) s ms"
    by (auto simp: subsumes_def list_all2_append1 list_all2_Cons1)
  from assms(6) m have "mx = CHR ''0'' \<or> mx = CHR ''1''" by (simp add: binary_def)
  with x' y mp ms show ?thesis
    unfolding subsumes_def one m
    by (auto intro!: list_all2_appendI)
qed

section \<open>Dicts and one round\<close>

lemma gpairs_Nil [simp]: "gpairs [] = {}"
  by (simp add: gpairs_def)

lemma gpairs_Cons [simp]: "gpairs ((k, ts) # d) = Pair k ` set ts \<union> gpairs d"
  by (auto simp: gpairs_def)

lemma gpairs_setdefault [simp]:
  "gpairs (setdefault_append d k v) = insert (k, v) (gpairs d)"
  by (induction d k v rule: setdefault_append.induct) auto

lemma keys_setdefault [simp]:
  "set (map fst (setdefault_append d k v)) = insert k (set (map fst d))"
  by (induction d k v rule: setdefault_append.induct) auto

lemma wf_setdefault: "wf_dict d \<Longrightarrow> wf_dict (setdefault_append d k v)"
proof (induction d k v rule: setdefault_append.induct)
  case (1 k v)
  then show ?case by (simp add: wf_dict_def)
next
  case (2 k' vs d k v)
  have "fst ` set (setdefault_append d k v) = insert k (fst ` set d)"
    using keys_setdefault [of d k v] by simp
  with 2 show ?case by (auto simp: wf_dict_def)
qed

lemma wf_keys: "wf_dict d \<Longrightarrow> set (map fst d) = fst ` gpairs d"
proof -
  assume wf: "wf_dict d"
  have "k \<in> fst ` set d \<longleftrightarrow> k \<in> fst ` gpairs d" for k
  proof
    assume "k \<in> fst ` set d"
    then obtain ts where kt: "(k, ts) \<in> set d" by auto
    with wf have "ts \<noteq> []" by (force simp: wf_dict_def)
    then obtain t where "t \<in> set ts" by (cases ts) auto
    with kt have "(k, t) \<in> gpairs d" by (auto simp: gpairs_def)
    then show "k \<in> fst ` gpairs d" by force
  next
    assume "k \<in> fst ` gpairs d"
    then show "k \<in> fst ` set d" by (force simp: gpairs_def)
  qed
  then show ?thesis by auto
qed

lemma wf_empty: "wf_dict d \<Longrightarrow> (d = []) = (gpairs d = {})"
  by (cases d) (auto simp: wf_dict_def)

lemma set_getitem: "distinct (map fst d) \<Longrightarrow> set (getitem d k) = {t. (k, t) \<in> gpairs d}"
  by (induction d) (auto simp: getitem_def gpairs_def image_iff split: option.splits)

lemma values_gpairs: "set (concat (map snd d)) = snd ` gpairs d"
  by (induction d) (auto simp: image_Un image_image)

lemma fold_union:
  assumes "\<And>x s. v (f x s) = v s \<union> C x"
  shows "v (fold f xs s) = v s \<union> (\<Union>x\<in>set xs. C x)"
  using assms by (induction xs arbitrary: s) auto

lemma fold_preserves:
  assumes "\<And>x s. P s \<Longrightarrow> P (f x s)" and "P s"
  shows "P (fold f xs s)"
  using assms by (induction xs arbitrary: s) auto

lemma step_gpairs:
  "gpairs (fst (combine_step g t1 t2 st)) = gpairs (fst st) \<union> hit g t1 t2"
  by (auto simp: combine_step_def hit_def split: option.splits)

lemma step_used:
  "snd (combine_step g t1 t2 st) = snd st \<union> (if hit g t1 t2 = {} then {} else {t1, t2})"
  by (auto simp: combine_step_def hit_def split: option.splits)

lemma step_wf: "wf_dict (fst st) \<Longrightarrow> wf_dict (fst (combine_step g t1 t2 st))"
  by (auto simp: combine_step_def wf_setdefault split: option.splits)

lemma groups_gpairs:
  "gpairs (fst (combine_groups d gp st)) =
     gpairs (fst st) \<union>
     (\<Union>t1\<in>set (getitem d (fst gp)). \<Union>t2\<in>set (getitem d (snd gp)). hit (fst gp) t1 t2)"
  unfolding combine_groups_def
  by (rule fold_union [where v = "\<lambda>s. gpairs (fst s)"])
     (rule fold_union [where v = "\<lambda>s. gpairs (fst s)"], rule step_gpairs)

lemma groups_used:
  "snd (combine_groups d gp st) =
     snd st \<union>
     (\<Union>t1\<in>set (getitem d (fst gp)). \<Union>t2\<in>set (getitem d (snd gp)).
        if hit (fst gp) t1 t2 = {} then {} else {t1, t2})"
  unfolding combine_groups_def
  by (rule fold_union [where v = snd]) (rule fold_union [where v = snd], rule step_used)

lemma groups_wf: "wf_dict (fst st) \<Longrightarrow> wf_dict (fst (combine_groups d gp st))"
  unfolding combine_groups_def
  by (rule fold_preserves [where P = "\<lambda>s. wf_dict (fst s)"])
     (rule fold_preserves [where P = "\<lambda>s. wf_dict (fst s)"], rule step_wf)

lemma round_gpairs:
  "gpairs (fst (combine_round d)) =
     (\<Union>gp\<in>set (key_pairs d). \<Union>t1\<in>set (getitem d (fst gp)). \<Union>t2\<in>set (getitem d (snd gp)).
        hit (fst gp) t1 t2)"
  unfolding combine_round_def
  using fold_union [where v = "\<lambda>s. gpairs (fst s)" and f = "combine_groups d"
      and s = "([], {})", OF groups_gpairs]
  by simp

lemma round_used:
  "snd (combine_round d) =
     (\<Union>gp\<in>set (key_pairs d). \<Union>t1\<in>set (getitem d (fst gp)). \<Union>t2\<in>set (getitem d (snd gp)).
        if hit (fst gp) t1 t2 = {} then {} else {t1, t2})"
  unfolding combine_round_def
  using fold_union [where v = snd and f = "combine_groups d" and s = "([], {})", OF groups_used]
  by simp

lemma round_wf: "wf_dict (fst (combine_round d))"
  unfolding combine_round_def
  by (rule fold_preserves [where P = "\<lambda>s. wf_dict (fst s)"])
     (simp_all add: groups_wf, simp add: wf_dict_def)

section \<open>Termination of the round loop\<close>

lemma key_pairs_fst: "map fst (key_pairs d) = butlast (sort (map fst d))"
  by (simp add: key_pairs_def Let_def butlast_conv_take map_fst_zip_take)

lemma adjacent_less:
  "sorted xs \<Longrightarrow> distinct xs \<Longrightarrow> (a, b) \<in> set (zip xs (tl xs)) \<Longrightarrow> a < (b::nat)"
proof (induction xs)
  case Nil
  then show ?case by simp
next
  case (Cons x xs)
  then show ?case by (cases xs) (auto simp: less_le)
qed

lemma key_pairs_less:
  "distinct (map fst d) \<Longrightarrow> (g1, g2) \<in> set (key_pairs d) \<Longrightarrow> g1 < g2"
  unfolding key_pairs_def Let_def
  by (rule adjacent_less [of "sort (map fst d)"]) simp_all

lemma key_pairs_mem:
  assumes "(g1, g2) \<in> set (key_pairs d)"
  shows "g1 \<in> set (map fst d) \<and> g2 \<in> set (map fst d)"
proof -
  let ?ks = "sort (map fst d)"
  from assms have "g1 \<in> set ?ks" "g2 \<in> set (tl ?ks)"
    unfolding key_pairs_def Let_def by (auto dest: set_zip_leftD set_zip_rightD)
  moreover have "set (tl ?ks) \<subseteq> set ?ks" by (cases ?ks) auto
  ultimately show ?thesis by auto
qed

lemma hit_key: "(g', c) \<in> hit g t1 t2 \<Longrightarrow> g' = g"
  by (auto simp: hit_def split: option.splits if_splits)

lemma round_keys: "set (map fst (fst (combine_round d))) \<subseteq> set (butlast (sort (map fst d)))"
proof -
  have "fst ` gpairs (fst (combine_round d)) \<subseteq> fst ` set (key_pairs d)"
    by (auto simp: round_gpairs dest!: hit_key) force
  also have "\<dots> = set (butlast (sort (map fst d)))"
    using key_pairs_fst [of d] by (metis set_map)
  finally show ?thesis using wf_keys [OF round_wf, of d] by simp
qed

lemma round_length:
  assumes "d \<noteq> []"
  shows "length (fst (combine_round d)) < length d"
proof -
  let ?ng = "fst (combine_round d)"
  have "distinct (map fst ?ng)" using round_wf [of d] by (simp add: wf_dict_def)
  then have "length ?ng = card (set (map fst ?ng))"
    using distinct_card [of "map fst ?ng"] by simp
  also have "\<dots> \<le> card (set (butlast (sort (map fst d))))"
    by (rule card_mono [OF _ round_keys]) simp
  also have "\<dots> \<le> length (butlast (sort (map fst d)))" by (rule card_length)
  also have "\<dots> < length d" using assms by simp
  finally show ?thesis .
qed

lemma groups_round_step [simp]: "groups (round_step s) = fst (combine_round (groups s))"
  by (simp add: round_step_def split: prod.splits)

lemma unchecked_round_step [simp]:
  "unchecked_set (round_step s) = snd ` gpairs (fst (combine_round (groups s)))"
  using values_gpairs [of "fst (combine_round (groups s))"]
  by (cases "combine_round (groups s)") (simp add: round_step_def)

lemma checked_round_step [simp]:
  "checked_set (round_step s) =
     checked_set s \<union> (unchecked_set s - snd (combine_round (groups s)))"
  by (simp add: round_step_def split: prod.splits)

termination minimize_loop
  by (relation "measure (\<lambda>s. length (groups s))") (simp_all add: round_length)

section \<open>The round loop: invariant, rounds, independence of the input order\<close>

lemma hit_iff: "(g', c) \<in> hit g t1 t2 \<longleftrightarrow> g' = g \<and> combine_terms t1 t2 = Some c \<and> c \<noteq> []"
  by (auto simp: hit_def split: option.splits if_splits)

lemma hit_nonempty: "hit g t1 t2 \<noteq> {} \<longleftrightarrow> (\<exists>c. combine_terms t1 t2 = Some c \<and> c \<noteq> [])"
  by (auto simp: hit_def split: option.splits if_splits)

lemma round_gpairs_iff:
  assumes "distinct (map fst d)"
  shows "(g, c) \<in> gpairs (fst (combine_round d)) \<longleftrightarrow>
    (\<exists>g2 t1 t2. (g, g2) \<in> set (key_pairs d) \<and> (g, t1) \<in> gpairs d \<and> (g2, t2) \<in> gpairs d \<and>
       combine_terms t1 t2 = Some c \<and> c \<noteq> [])"
proof -
  have "(g, c) \<in> gpairs (fst (combine_round d)) \<longleftrightarrow>
      (\<exists>gp\<in>set (key_pairs d). \<exists>t1\<in>set (getitem d (fst gp)). \<exists>t2\<in>set (getitem d (snd gp)).
         (g, c) \<in> hit (fst gp) t1 t2)"
    unfolding round_gpairs by blast
  also have "\<dots> \<longleftrightarrow> (\<exists>g1 g2. (g1, g2) \<in> set (key_pairs d) \<and>
      (\<exists>t1. (g1, t1) \<in> gpairs d \<and> (\<exists>t2. (g2, t2) \<in> gpairs d \<and> (g, c) \<in> hit g1 t1 t2)))"
    by (simp add: set_getitem [OF assms] Bex_def)
  also have "\<dots> \<longleftrightarrow> (\<exists>g2 t1 t2. (g, g2) \<in> set (key_pairs d) \<and> (g, t1) \<in> gpairs d \<and>
      (g2, t2) \<in> gpairs d \<and> combine_terms t1 t2 = Some c \<and> c \<noteq> [])"
    unfolding hit_iff by blast
  finally show ?thesis .
qed

lemma round_used_iff:
  assumes "distinct (map fst d)"
  shows "t \<in> snd (combine_round d) \<longleftrightarrow>
    (\<exists>g1 g2 t1 t2 c. (g1, g2) \<in> set (key_pairs d) \<and> (g1, t1) \<in> gpairs d \<and> (g2, t2) \<in> gpairs d \<and>
       combine_terms t1 t2 = Some c \<and> c \<noteq> [] \<and> (t = t1 \<or> t = t2))"
proof -
  have "t \<in> snd (combine_round d) \<longleftrightarrow>
      (\<exists>gp\<in>set (key_pairs d). \<exists>t1\<in>set (getitem d (fst gp)). \<exists>t2\<in>set (getitem d (snd gp)).
         hit (fst gp) t1 t2 \<noteq> {} \<and> (t = t1 \<or> t = t2))"
    unfolding round_used by (simp split: if_splits) blast
  also have "\<dots> \<longleftrightarrow> (\<exists>g1 g2. (g1, g2) \<in> set (key_pairs d) \<and>
      (\<exists>t1. (g1, t1) \<in> gpairs d \<and> (\<exists>t2. (g2, t2) \<in> gpairs d \<and>
         hit g1 t1 t2 \<noteq> {} \<and> (t = t1 \<or> t = t2))))"
    by (simp add: set_getitem [OF assms] Bex_def)
  also have "\<dots> \<longleftrightarrow> (\<exists>g1 g2 t1 t2 c. (g1, g2) \<in> set (key_pairs d) \<and> (g1, t1) \<in> gpairs d \<and>
      (g2, t2) \<in> gpairs d \<and> combine_terms t1 t2 = Some c \<and> c \<noteq> [] \<and> (t = t1 \<or> t = t2))"
    unfolding hit_nonempty by blast
  finally show ?thesis .
qed

lemma gpairs_foldl:
  "gpairs (foldl (\<lambda>groups t. setdefault_append groups (f t) t) d ts) =
     gpairs d \<union> (\<lambda>t. (f t, t)) ` set ts"
  by (induction ts arbitrary: d) auto

lemma wf_foldl:
  "wf_dict d \<Longrightarrow> wf_dict (foldl (\<lambda>groups t. setdefault_append groups (f t) t) d ts)"
  by (induction ts arbitrary: d) (auto simp: wf_setdefault)

lemma gpairs_group_by_ones: "gpairs (group_by_ones ms) = (\<lambda>t. (count_ones t, t)) ` set ms"
  by (simp add: group_by_ones_def gpairs_foldl)

lemma wf_group_by_ones: "wf_dict (group_by_ones ms)"
  unfolding group_by_ones_def by (rule wf_foldl) (simp add: wf_dict_def)

lemma round_inv_init:
  "\<forall>m\<in>set ms. length m = n \<Longrightarrow> round_inv n (init_state ms)"
  by (auto simp: round_inv_def init_state_def wf_group_by_ones gpairs_group_by_ones image_image)

lemma round_inv_step:
  assumes "round_inv n s"
  shows "round_inv n (round_step s)"
proof -
  from assms have dist: "distinct (map fst (groups s))"
    and len: "\<And>k t. (k, t) \<in> gpairs (groups s) \<Longrightarrow> length t = n \<and> count_ones t = k"
    by (auto simp: round_inv_def wf_dict_def)
  have "length c = n \<and> count_ones c = g"
    if "(g, c) \<in> gpairs (fst (combine_round (groups s)))" for g c
  proof -
    from that obtain g2 t1 t2 where kp: "(g, g2) \<in> set (key_pairs (groups s))"
      and t1: "(g, t1) \<in> gpairs (groups s)" and t2: "(g2, t2) \<in> gpairs (groups s)"
      and c: "combine_terms t1 t2 = Some c"
      unfolding round_gpairs_iff [OF dist] by blast
    from key_pairs_less [OF dist kp] have "g < g2" .
    with len [OF t1] len [OF t2]
    have l: "length t1 = length t2" and lt: "count_ones t1 < count_ones t2" by simp_all
    from combine_length [OF c l] combine_count_lower [OF c l lt] len [OF t1]
    show ?thesis by simp
  qed
  then show ?thesis
    by (auto simp: round_inv_def round_wf)
qed

lemma round_inv_funpow: "round_inv n s \<Longrightarrow> round_inv n ((round_step ^^ j) s)"
  by (induction j) (auto simp: round_inv_step)

lemma minimize_loop_rule:
  assumes "I s"
    and "\<And>s. I s \<Longrightarrow> groups s \<noteq> [] \<Longrightarrow> I (round_step s)"
    and "\<And>s. I s \<Longrightarrow> groups s = [] \<Longrightarrow> Q (checked_set s)"
  shows "Q (minimize_loop s)"
  using assms(1)
proof (induction s rule: minimize_loop.induct)
  case (1 s)
  show ?case
  proof (cases "groups s = []")
    case True
    with assms(3) [OF "1.prems"] show ?thesis by simp
  next
    case False
    from "1.IH" [OF False assms(2) [OF "1.prems" False]] False show ?thesis by simp
  qed
qed

lemma minterms_okD: "minterms_ok n ms \<Longrightarrow> m \<in> set ms \<Longrightarrow> length m = n \<and> binary m"
  by (simp add: minterms_ok_def list_all_iff)

lemma subsumes_same [simp]: "subsumes t t"
  by (simp add: subsumes_def list_all2_same)

lemma cover_step:
  assumes inv: "round_inv n s"
    and cov: "\<exists>t\<in>checked_set s \<union> unchecked_set s. subsumes t m"
  shows "\<exists>t\<in>checked_set (round_step s) \<union> unchecked_set (round_step s). subsumes t m"
proof -
  from inv have dist: "distinct (map fst (groups s))"
    and un: "unchecked_set s = snd ` gpairs (groups s)"
    and len: "\<And>k t. (k, t) \<in> gpairs (groups s) \<Longrightarrow> length t = n"
    by (auto simp: round_inv_def wf_dict_def)
  from cov obtain t where t: "t \<in> checked_set s \<union> unchecked_set s" and tm: "subsumes t m"
    by blast
  show ?thesis
  proof (cases "t \<in> snd (combine_round (groups s))")
    case False
    with t have "t \<in> checked_set (round_step s)" by simp
    with tm show ?thesis by blast
  next
    case True
    then obtain g1 g2 t1 t2 c where kp: "(g1, g2) \<in> set (key_pairs (groups s))"
      and t1: "(g1, t1) \<in> gpairs (groups s)" and t2: "(g2, t2) \<in> gpairs (groups s)"
      and c: "combine_terms t1 t2 = Some c" "c \<noteq> []" and tt: "t = t1 \<or> t = t2"
      unfolding round_used_iff [OF dist] by blast
    from kp t1 t2 c have "(g1, c) \<in> gpairs (fst (combine_round (groups s)))"
      unfolding round_gpairs_iff [OF dist] by blast
    then have "snd (g1, c) \<in> snd ` gpairs (fst (combine_round (groups s)))" by (rule imageI)
    then have "c \<in> unchecked_set (round_step s)" by simp
    moreover from len [OF t1] len [OF t2] have "length t1 = length t2" by simp
    from combine_subsumes [OF c(1) this] tt have "subsumes c t" by blast
    from this tm have "subsumes c m" by (rule subsumes_trans_comb)
    ultimately show ?thesis by blast
  qed
qed

lemma round_inv_done:
  "round_inv n s \<Longrightarrow> groups s = [] \<Longrightarrow> unchecked_set s = {}"
  by (simp add: round_inv_def)

lemma subsumes_binary_eq:
  assumes "binary t" and "subsumes t m"
  shows "m = t"
  using assms(2,1) unfolding subsumes_def binary_def
  by (induction rule: list_all2_induct) auto

lemma sound_step:
  assumes inv: "round_inv n s"
    and snd: "\<forall>t\<in>checked_set s \<union> unchecked_set s.
                ternary t \<and> (\<forall>m. binary m \<and> subsumes t m \<longrightarrow> m \<in> M)"
    and t: "t \<in> checked_set (round_step s) \<union> unchecked_set (round_step s)"
  shows "ternary t \<and> (\<forall>m. binary m \<and> subsumes t m \<longrightarrow> m \<in> M)"
proof (cases "t \<in> checked_set s \<union> unchecked_set s")
  case True
  with snd show ?thesis by blast
next
  case False
  from inv have dist: "distinct (map fst (groups s))"
    and un: "unchecked_set s = snd ` gpairs (groups s)"
    and len: "\<And>k t. (k, t) \<in> gpairs (groups s) \<Longrightarrow> length t = n \<and> count_ones t = k"
    by (auto simp: round_inv_def wf_dict_def)
  from False t have "t \<in> snd ` gpairs (fst (combine_round (groups s)))" by auto
  then obtain g where "(g, t) \<in> gpairs (fst (combine_round (groups s)))" by auto
  then obtain g2 t1 t2 where kp: "(g, g2) \<in> set (key_pairs (groups s))"
    and t1: "(g, t1) \<in> gpairs (groups s)" and t2: "(g2, t2) \<in> gpairs (groups s)"
    and c: "combine_terms t1 t2 = Some t"
    unfolding round_gpairs_iff [OF dist] by blast
  from key_pairs_less [OF dist kp] len [OF t1] len [OF t2]
  have l: "length t1 = length t2" and lt: "count_ones t1 < count_ones t2" by simp_all
  from imageI [OF t1, of snd] imageI [OF t2, of snd] un
  have "t1 \<in> unchecked_set s" "t2 \<in> unchecked_set s" by simp_all
  with snd have s1: "ternary t1" "\<And>m. binary m \<Longrightarrow> subsumes t1 m \<Longrightarrow> m \<in> M"
    and s2: "\<And>m. binary m \<Longrightarrow> subsumes t2 m \<Longrightarrow> m \<in> M" by blast+
  have "m \<in> M" if "binary m" "subsumes t m" for m
    using combine_sound [OF c l lt s1(1) that(2,1)] s1(2) s2 that(1) by blast
  with combine_ternary [OF c l s1(1)] show ?thesis by blast
qed

lemma minimize_three: "minimize [''0001'', ''0011'', ''0111''] = {''00-1'', ''0-11''}"
  by code_simp

lemma set_group_entry:
  assumes "distinct (map fst d)" and "(k, ts) \<in> set d"
  shows "set ts = {t. (k, t) \<in> gpairs d}"
proof -
  from assms have "map_of d k = Some ts" by (rule map_of_is_SomeI)
  then have "getitem d k = ts" by (simp add: getitem_def)
  with set_getitem [OF assms(1), of k] show ?thesis by simp
qed

lemma funpow_round_step_Suc: "(round_step ^^ Suc j) s = (round_step ^^ j) (round_step s)"
  by (simp add: funpow_swap1)

lemma loop_rounds:
  "\<exists>r\<le>length (groups s). groups ((round_step ^^ r) s) = [] \<and>
      (\<forall>j<r. groups ((round_step ^^ j) s) \<noteq> []) \<and>
      minimize_loop s = checked_set ((round_step ^^ r) s)"
proof (induction s rule: minimize_loop.induct)
  case (1 s)
  show ?case
  proof (cases "groups s = []")
    case True
    then show ?thesis by simp
  next
    case False
    from "1.IH" [OF False] obtain r where r: "r \<le> length (groups (round_step s))"
      and fin: "groups ((round_step ^^ r) (round_step s)) = []"
      and before: "\<forall>j<r. groups ((round_step ^^ j) (round_step s)) \<noteq> []"
      and res: "minimize_loop (round_step s) = checked_set ((round_step ^^ r) (round_step s))"
      by blast
    from r round_length [OF False] have "Suc r \<le> length (groups s)" by simp
    moreover from fin have "groups ((round_step ^^ Suc r) s) = []"
      by (simp only: funpow_round_step_Suc)
    moreover have "groups ((round_step ^^ j) s) \<noteq> []" if "j < Suc r" for j
    proof (cases j)
      case 0
      with False show ?thesis by simp
    next
      case (Suc j')
      with that before show ?thesis by (simp only: funpow_round_step_Suc) simp
    qed
    moreover from res False
    have "minimize_loop s = checked_set ((round_step ^^ Suc r) s)"
      by (simp only: funpow_round_step_Suc) simp
    ultimately show ?thesis by blast
  qed
qed

lemma count_ones_le: "count_ones t \<le> length t"
  by (simp add: count_ones_def)

lemma init_groups_length:
  assumes "minterms_ok n ms"
  shows "length (groups (init_state ms)) \<le> n + 1"
proof -
  let ?d = "group_by_ones ms"
  have "distinct (map fst ?d)" using wf_group_by_ones [of ms] by (simp add: wf_dict_def)
  then have "length ?d = card (set (map fst ?d))"
    using distinct_card [of "map fst ?d"] by simp
  also have "set (map fst ?d) = count_ones ` set ms"
    by (simp only: wf_keys [OF wf_group_by_ones] gpairs_group_by_ones) (simp add: image_image)
  also have "card (count_ones ` set ms) \<le> card {..n}"
  proof (rule card_mono)
    show "count_ones ` set ms \<subseteq> {..n}"
      using minterms_okD [OF assms] count_ones_le by fastforce
  qed simp
  finally show ?thesis by (simp add: init_state_def)
qed

lemma key_pairs_cong:
  assumes "wf_dict d" "wf_dict d'" "gpairs d = gpairs d'"
  shows "key_pairs d = key_pairs d'"
proof -
  from assms have "set (map fst d) = set (map fst d')" by (simp only: wf_keys)
  moreover from assms have "distinct (map fst d)" "distinct (map fst d')"
    by (simp_all add: wf_dict_def)
  ultimately have "sort (map fst d) = sort (map fst d')"
    by (intro sorted_distinct_set_unique) simp_all
  then show ?thesis by (simp add: key_pairs_def)
qed

lemma combine_round_cong:
  assumes "wf_dict d" "wf_dict d'" "gpairs d = gpairs d'"
  shows "gpairs (fst (combine_round d)) = gpairs (fst (combine_round d'))"
    and "snd (combine_round d) = snd (combine_round d')"
proof -
  from assms have g: "set (getitem d k) = set (getitem d' k)" for k
    by (simp add: set_getitem wf_dict_def)
  show "gpairs (fst (combine_round d)) = gpairs (fst (combine_round d'))"
    by (simp only: round_gpairs key_pairs_cong [OF assms] g)
  show "snd (combine_round d) = snd (combine_round d')"
    by (simp only: round_used key_pairs_cong [OF assms] g)
qed

lemma minimize_loop_cong:
  assumes "wf_dict (groups s)" "wf_dict (groups s')" "gpairs (groups s) = gpairs (groups s')"
    and "unchecked_set s = unchecked_set s'" "checked_set s = checked_set s'"
  shows "minimize_loop s = minimize_loop s'"
  using assms
proof (induction s arbitrary: s' rule: minimize_loop.induct)
  case (1 s)
  from "1.prems"(1,2,3) have e: "(groups s = []) = (groups s' = [])"
    by (simp add: wf_empty)
  show ?case
  proof (cases "groups s = []")
    case True
    with e "1.prems"(5) show ?thesis by simp
  next
    case False
    note c = combine_round_cong [OF "1.prems"(1,2,3)]
    have "minimize_loop (round_step s) = minimize_loop (round_step s')"
      using c "1.prems"(4,5) by (intro "1.IH" [OF False]) (simp_all add: round_wf)
    with False e show ?thesis by simp
  qed
qed

lemma example_round_two:
  "groups ((round_step ^^ 1) (init_state [''0001'', ''0011'', ''0111''])) =
     [(1, [''00-1'']), (2, [''0-11''])]"
  by code_simp

section \<open>The specified properties of combine_terms and a worked example\<close>

text \<open>
  C2. \<open>minimize\<close> applied to the minterms 0001, 0011 and 0111 returns exactly the set of
  the two terms 00-1 and 0-11.
\<close>

theorem minimize_three_minterms:
  "minimize [''0001'', ''0011'', ''0111''] = {''00-1'', ''0-11''}"
  by code_simp

lemma nth_differ_split:
  assumes "length a = length b" "i < length a" "\<forall>j<length a. j \<noteq> i \<longrightarrow> a ! j = b ! j"
  shows "a = take i a @ a ! i # drop (Suc i) a \<and> b = take i a @ b ! i # drop (Suc i) a"
proof -
  have "take i b = take i a"
    using assms by (intro nth_take_lemma) auto
  moreover have "drop (Suc i) b = drop (Suc i) a"
    using assms by (intro nth_equalityI) auto
  ultimately show ?thesis
    using assms id_take_nth_drop [of i a] id_take_nth_drop [of i b] by simp
qed

text \<open>
  C3. For terms \<open>a\<close> and \<open>b\<close> of one length that differ at position \<open>i\<close> and nowhere
  else, \<open>combine_terms a b\<close> returns \<open>a\<close> with position \<open>i\<close> replaced by the wildcard;
  the result has the length of the inputs and agrees with both at every other position.
\<close>

theorem combine_terms_single_difference:
  assumes "length a = length b" and "i < length a" and "a ! i \<noteq> b ! i"
    and "\<forall>j<length a. j \<noteq> i \<longrightarrow> a ! j = b ! j"
  shows "\<exists>c. combine_terms a b = Some c \<and> c = a[i := CHR ''-''] \<and> length c = length a \<and>
           c ! i = CHR ''-'' \<and> (\<forall>j<length a. j \<noteq> i \<longrightarrow> c ! j = a ! j \<and> c ! j = b ! j)"
proof -
  let ?p = "take i a" and ?s = "drop (Suc i) a"
  from nth_differ_split [OF assms(1,2,4)]
  have a: "a = ?p @ a ! i # ?s" and b: "b = ?p @ b ! i # ?s" by simp_all
  have "combine_terms (?p @ a ! i # ?s) (?p @ b ! i # ?s) = Some (?p @ CHR ''-'' # ?s)"
    using assms(3) by (simp add: combine_terms_closed)
  with a b have "combine_terms a b = Some (?p @ CHR ''-'' # ?s)" by simp
  moreover have "a[i := CHR ''-''] = ?p @ CHR ''-'' # ?s"
    using assms(2) by (rule upd_conv_take_nth_drop)
  moreover have "(?p @ CHR ''-'' # ?s) ! i = CHR ''-''"
    using assms(2) by (simp add: nth_append)
  moreover have "(?p @ CHR ''-'' # ?s) ! j = a ! j" if "j < length a" "j \<noteq> i" for j
    using that assms(2) by (auto simp: nth_append nth_Cons' min_def)
  ultimately show ?thesis using assms by auto
qed

theorem combine_terms_single_difference_witness:
  "\<exists>c. combine_terms ''0001'' ''0011'' = Some c \<and> c = ''00-1'' \<and> length c = 4 \<and>
       c ! 2 = CHR ''-'' \<and> (\<forall>j<4. j \<noteq> 2 \<longrightarrow> c ! j = ''0001'' ! j \<and> c ! j = ''0011'' ! j)"
proof -
  have h: "\<forall>j<length ''0001''. j \<noteq> 2 \<longrightarrow> ''0001'' ! j = ''0011'' ! j"
    by (simp add: less_Suc_eq numeral_eq_Suc)
  show ?thesis
    using h combine_terms_single_difference [of "''0001''" "''0011''" 2, OF _ _ _ h] by simp
qed

text \<open>
  C4, as the claim states it, fails for two equal terms: \<open>combine_terms\<close> returns the
  term itself and not \<open>None\<close>.
\<close>

theorem combine_terms_equal_terms_counterexample:
  "length ''01'' = length ''01'' \<and> diffs (zip ''01'' ''01'') = 0 \<and>
   combine_terms ''01'' ''01'' = Some ''01''"
  by (simp add: combine_terms_closed)

lemma two_differences_None:
  assumes "length a = length b" and "i < j" and "j < length a"
    and "a ! i \<noteq> b ! i" and "a ! j \<noteq> b ! j"
  shows "combine_terms a b = None"
proof (rule ccontr)
  assume "combine_terms a b \<noteq> None"
  then obtain c where c: "combine_terms a b = Some c" by auto
  from c assms(1) show False
  proof (cases rule: combine_terms_SomeE)
    case same
    with assms(4) show False by simp
  next
    case (one p x y s)
    have "k \<noteq> length p \<Longrightarrow> a ! k = b ! k" for k
      unfolding one by (simp add: nth_append nth_Cons')
    with assms(4,5) have "i = length p" "j = length p" by auto
    with assms(2) show False by simp
  qed
qed

text \<open>
  C4, amended. Applied to two equal terms, of any length, \<open>combine_terms\<close> returns that
  term and not \<open>None\<close>; for terms \<open>a\<close> and \<open>b\<close> of one length that differ at two
  positions (or more), \<open>combine_terms a b\<close> returns \<open>None\<close>.
\<close>

theorem combine_terms_no_combination:
  "combine_terms c c = Some c \<and>
   (length a = length b \<and> i < j \<and> j < length a \<and> a ! i \<noteq> b ! i \<and> a ! j \<noteq> b ! j \<longrightarrow>
      combine_terms a b = None)"
proof
  show "combine_terms c c = Some c" by (simp add: combine_terms_closed)
  show "length a = length b \<and> i < j \<and> j < length a \<and> a ! i \<noteq> b ! i \<and> a ! j \<noteq> b ! j \<longrightarrow>
      combine_terms a b = None"
    using two_differences_None [of a b i j] by blast
qed

theorem combine_terms_no_combination_witness:
  "combine_terms ''1'' ''1'' = Some ''1'' \<and> length ''0001'' = length ''0111'' \<and>
   ''0001'' ! 1 \<noteq> ''0111'' ! 1 \<and> ''0001'' ! 2 \<noteq> ''0111'' ! 2 \<and>
   combine_terms ''0001'' ''0111'' = None"
  using combine_terms_no_combination
    [where c = "''1''" and a = "''0001''" and b = "''0111''" and i = 1 and j = 2]
  by simp

text \<open>
  C5, as the claim states it, fails: for terms of unequal length \<open>combine_terms\<close> reports
  nothing and returns a combination of the truncated terms.
\<close>

theorem combine_terms_unequal_length_counterexample:
  "length ''01'' \<noteq> length ''0'' \<and> combine_terms ''01'' ''0'' = Some ''0''"
  by (simp add: combine_terms_closed)

text \<open>
  C5, amended. For terms of unequal length \<open>combine_terms\<close> raises nothing: it returns what
  it returns for the two terms cut to the shorter length, and a combination it returns has
  that shorter length.
\<close>

theorem combine_terms_unequal_length:
  assumes "length a \<noteq> length b"
  shows "combine_terms a b =
           combine_terms (take (min (length a) (length b)) a) (take (min (length a) (length b)) b)
         \<and> (case combine_terms a b of None \<Rightarrow> True
            | Some c \<Rightarrow> length c = min (length a) (length b))"
proof -
  let ?n = "min (length a) (length b)"
  have "zip (take ?n a) (take ?n b) = take ?n (zip a b)" by (simp add: take_zip)
  also have "\<dots> = zip a b" by simp
  finally show ?thesis
    by (simp add: combine_terms_closed merged_def)
qed

theorem combine_terms_unequal_length_witness:
  "length ''01'' \<noteq> length ''0'' \<and> combine_terms ''01'' ''0'' = combine_terms ''0'' ''0'' \<and>
   combine_terms ''01'' ''0'' = Some ''0''"
  using combine_terms_unequal_length [of "''01''" "''0''"]
  by (simp add: combine_terms_closed)

text \<open>
  C9, as the claim states it, fails: no two terms over 0, 1 and the wildcard of one
  length whose population counts are two or more apart are combined by \<open>combine_terms\<close>.
\<close>

theorem combine_terms_two_apart_counterexample:
  "\<not> (\<exists>a b. length a = length b \<and> ternary a \<and> ternary b \<and>
          (count_ones a + 2 \<le> count_ones b \<or> count_ones b + 2 \<le> count_ones a) \<and>
          combine_terms a b \<noteq> None)"
proof
  assume "\<exists>a b. length a = length b \<and> ternary a \<and> ternary b \<and>
          (count_ones a + 2 \<le> count_ones b \<or> count_ones b + 2 \<le> count_ones a) \<and>
          combine_terms a b \<noteq> None"
  then obtain a b c where "length a = length b" "combine_terms a b = Some c"
    and far: "count_ones a + 2 \<le> count_ones b \<or> count_ones b + 2 \<le> count_ones a"
    by auto
  from combine_count_close [OF this(2,1)] far show False by simp
qed

text \<open>
  C9, amended. Whenever \<open>combine_terms\<close> returns a combination of two terms of one
  length, their population counts are at most one apart.
\<close>

theorem combine_terms_counts_adjacent:
  assumes "length a = length b" and "combine_terms a b \<noteq> None"
  shows "count_ones a \<le> count_ones b + 1 \<and> count_ones b \<le> count_ones a + 1"
proof -
  from assms(2) obtain c where "combine_terms a b = Some c" by auto
  from combine_count_close [OF this assms(1)] show ?thesis .
qed

theorem combine_terms_counts_adjacent_witness:
  "combine_terms ''0001'' ''0011'' \<noteq> None \<and>
   count_ones ''0001'' \<le> count_ones ''0011'' + 1 \<and> count_ones ''0011'' \<le> count_ones ''0001'' + 1"
proof -
  have h: "combine_terms ''0001'' ''0011'' \<noteq> None" by (simp add: combine_terms_closed)
  show ?thesis
    using h combine_terms_counts_adjacent [of "''0001''" "''0011''", OF _ h] by simp
qed

section \<open>The specified properties of minimize\<close>

text \<open>
  C1. For every input list of minterms over 0 and 1 of one length, every input minterm
  is subsumed by at least one term of the set that \<open>minimize\<close> returns.
\<close>

theorem minimize_covers_input:
  assumes "minterms_ok n minterms" and "m \<in> set minterms"
  shows "\<exists>t\<in>minimize minterms. subsumes t m"
  unfolding minimize_def
proof (rule minimize_loop_rule [where I = "\<lambda>s. round_inv n s \<and>
      (\<exists>t\<in>checked_set s \<union> unchecked_set s. subsumes t m)"])
  have "round_inv n (init_state minterms)"
    using assms(1) by (intro round_inv_init) (simp add: minterms_okD)
  moreover have "m \<in> unchecked_set (init_state minterms)"
    using assms(2) by (simp add: init_state_def)
  ultimately show "round_inv n (init_state minterms) \<and>
      (\<exists>t\<in>checked_set (init_state minterms) \<union> unchecked_set (init_state minterms). subsumes t m)"
    using subsumes_same by blast
next
  fix s
  assume "round_inv n s \<and> (\<exists>t\<in>checked_set s \<union> unchecked_set s. subsumes t m)"
  then show "round_inv n (round_step s) \<and>
      (\<exists>t\<in>checked_set (round_step s) \<union> unchecked_set (round_step s). subsumes t m)"
    using round_inv_step cover_step by blast
next
  fix s
  assume "round_inv n s \<and> (\<exists>t\<in>checked_set s \<union> unchecked_set s. subsumes t m)"
    and "groups s = []"
  then show "\<exists>t\<in>checked_set s. subsumes t m"
    using round_inv_done by auto
qed

theorem minimize_covers_input_witness:
  "minterms_ok 4 [''0001'', ''0011'', ''0111''] \<and> ''0011'' \<in> set [''0001'', ''0011'', ''0111''] \<and>
   (\<exists>t\<in>minimize [''0001'', ''0011'', ''0111'']. subsumes t ''0011'')"
proof -
  have h: "minterms_ok 4 [''0001'', ''0011'', ''0111'']"
    by (simp add: minterms_ok_def binary_def)
  show ?thesis
    using h minimize_covers_input [OF h, of "''0011''"] by simp
qed

text \<open>
  C10. For every input list of minterms over 0 and 1 of one length and every term \<open>t\<close>
  that \<open>minimize\<close> returns, every string over 0 and 1 that \<open>t\<close> subsumes (which then has
  the length of \<open>t\<close>) is one of the input minterms.
\<close>

theorem minimize_sound:
  assumes "minterms_ok n minterms" and "t \<in> minimize minterms"
    and "binary m" and "subsumes t m"
  shows "m \<in> set minterms"
proof -
  have "\<forall>t\<in>minimize minterms. ternary t \<and> (\<forall>m. binary m \<and> subsumes t m \<longrightarrow> m \<in> set minterms)"
    unfolding minimize_def
  proof (rule minimize_loop_rule [where I = "\<lambda>s. round_inv n s \<and>
      (\<forall>t\<in>checked_set s \<union> unchecked_set s.
         ternary t \<and> (\<forall>m. binary m \<and> subsumes t m \<longrightarrow> m \<in> set minterms))"])
    have "round_inv n (init_state minterms)"
      using assms(1) by (intro round_inv_init) (simp add: minterms_okD)
    moreover have "ternary t \<and> (\<forall>m. binary m \<and> subsumes t m \<longrightarrow> m \<in> set minterms)"
      if "t \<in> set minterms" for t
      using that minterms_okD [OF assms(1) that] binary_ternary subsumes_binary_eq by blast
    ultimately show "round_inv n (init_state minterms) \<and>
      (\<forall>t\<in>checked_set (init_state minterms) \<union> unchecked_set (init_state minterms).
         ternary t \<and> (\<forall>m. binary m \<and> subsumes t m \<longrightarrow> m \<in> set minterms))"
      by (simp add: init_state_def)
  next
    fix s
    assume a: "round_inv n s \<and> (\<forall>t\<in>checked_set s \<union> unchecked_set s.
         ternary t \<and> (\<forall>m. binary m \<and> subsumes t m \<longrightarrow> m \<in> set minterms))"
    then have "\<forall>t\<in>checked_set (round_step s) \<union> unchecked_set (round_step s).
         ternary t \<and> (\<forall>m. binary m \<and> subsumes t m \<longrightarrow> m \<in> set minterms)"
      using sound_step [of n s "set minterms"] by blast
    with a show "round_inv n (round_step s) \<and>
      (\<forall>t\<in>checked_set (round_step s) \<union> unchecked_set (round_step s).
         ternary t \<and> (\<forall>m. binary m \<and> subsumes t m \<longrightarrow> m \<in> set minterms))"
      using round_inv_step by blast
  next
    fix s
    assume "round_inv n s \<and> (\<forall>t\<in>checked_set s \<union> unchecked_set s.
         ternary t \<and> (\<forall>m. binary m \<and> subsumes t m \<longrightarrow> m \<in> set minterms))"
    then show "\<forall>t\<in>checked_set s. ternary t \<and> (\<forall>m. binary m \<and> subsumes t m \<longrightarrow> m \<in> set minterms)"
      by blast
  qed
  with assms(2,3,4) show ?thesis by blast
qed

theorem minimize_sound_witness:
  "minterms_ok 4 [''0001'', ''0011'', ''0111''] \<and> ''00-1'' \<in> minimize [''0001'', ''0011'', ''0111''] \<and>
   binary ''0011'' \<and> subsumes ''00-1'' ''0011'' \<and> ''0011'' \<in> set [''0001'', ''0011'', ''0111'']"
proof -
  have h: "minterms_ok 4 [''0001'', ''0011'', ''0111'']"
    by (simp add: minterms_ok_def binary_def)
  have t: "''00-1'' \<in> minimize [''0001'', ''0011'', ''0111'']"
    by (simp add: minimize_three)
  have b: "binary ''0011''" by (simp add: binary_def)
  have s: "subsumes ''00-1'' ''0011''" by (simp add: subsumes_def)
  show ?thesis
    using h t b s minimize_sound [OF h t b s] by simp
qed

text \<open>
  C6. For every input list of minterms over 0 and 1 of one length and every \<open>j\<close>, in
  the state \<open>s\<close> at the start of round \<open>j + 1\<close> of \<open>minimize\<close> the keys of the working
  dict are distinct, every term stored under a key \<open>k\<close> has exactly \<open>k\<close> symbols 1, and
  the list under \<open>k\<close> holds exactly the terms of the current generation with that count:
  the dict is the partition of the generation by population count.
\<close>

theorem round_groups_keyed_by_count:
  assumes "minterms_ok n minterms" and "s = (round_step ^^ j) (init_state minterms)"
  shows "distinct (map fst (groups s)) \<and>
         (\<forall>(k, ts)\<in>set (groups s). (\<forall>t\<in>set ts. count_ones t = k) \<and>
            ts \<noteq> [] \<and> set ts = {t \<in> unchecked_set s. count_ones t = k}) \<and>
         (\<forall>t\<in>unchecked_set s. count_ones t \<in> fst ` set (groups s))"
proof -
  have "round_inv n (init_state minterms)"
    using assms(1) by (intro round_inv_init) (simp add: minterms_okD)
  then have "round_inv n s" unfolding assms(2) by (rule round_inv_funpow)
  then have wf: "wf_dict (groups s)" and un: "unchecked_set s = snd ` gpairs (groups s)"
    and cnt: "\<And>k t. (k, t) \<in> gpairs (groups s) \<Longrightarrow> count_ones t = k"
    by (auto simp: round_inv_def)
  from wf have dist: "distinct (map fst (groups s))" by (simp add: wf_dict_def)
  have part: "{t. (k, t) \<in> gpairs (groups s)} = {t \<in> unchecked_set s. count_ones t = k}" for k
    unfolding un using cnt by force
  have "(\<forall>t\<in>set ts. count_ones t = k) \<and> ts \<noteq> [] \<and>
        set ts = {t \<in> unchecked_set s. count_ones t = k}"
    if "(k, ts) \<in> set (groups s)" for k ts
  proof -
    from that wf have "ts \<noteq> []" by (force simp: wf_dict_def)
    moreover from set_group_entry [OF dist that] part
    have "set ts = {t \<in> unchecked_set s. count_ones t = k}" by simp
    ultimately show ?thesis by simp
  qed
  moreover have "count_ones t \<in> fst ` set (groups s)" if "t \<in> unchecked_set s" for t
  proof -
    from that un obtain k where "(k, t) \<in> gpairs (groups s)" by auto
    with cnt have "(count_ones t, t) \<in> gpairs (groups s)" by simp
    then have "fst (count_ones t, t) \<in> fst ` gpairs (groups s)" by (rule imageI)
    with wf_keys [OF wf] show ?thesis by simp
  qed
  ultimately show ?thesis using dist by blast
qed

theorem round_groups_keyed_by_count_witness:
  "minterms_ok 4 [''0001'', ''0011'', ''0111''] \<and>
   groups ((round_step ^^ 1) (init_state [''0001'', ''0011'', ''0111''])) =
     [(1, [''00-1'']), (2, [''0-11''])] \<and>
   distinct (map fst (groups ((round_step ^^ 1) (init_state [''0001'', ''0011'', ''0111''])))) \<and>
   count_ones ''00-1'' = 1 \<and> count_ones ''0-11'' = 2"
proof -
  have h: "minterms_ok 4 [''0001'', ''0011'', ''0111'']"
    by (simp add: minterms_ok_def binary_def)
  from round_groups_keyed_by_count [OF h refl, of 1] example_round_two h
  show ?thesis by auto
qed

text \<open>
  C7. For every input list of minterms over 0 and 1 of length \<open>n\<close>, the round loop of
  \<open>minimize\<close> ends: there is a number \<open>r\<close> of at most \<open>n + 1\<close> rounds such that the
  dict is not empty at the start of each of the first \<open>r\<close> rounds, is empty after them,
  and the result of \<open>minimize\<close> is the set \<open>checked\<close> of that state.
\<close>

theorem minimize_rounds_bounded:
  assumes "minterms_ok n minterms"
  shows "\<exists>r\<le>n + 1. groups ((round_step ^^ r) (init_state minterms)) = [] \<and>
           (\<forall>j<r. groups ((round_step ^^ j) (init_state minterms)) \<noteq> []) \<and>
           minimize minterms = checked_set ((round_step ^^ r) (init_state minterms))"
proof -
  from loop_rounds [of "init_state minterms"] obtain r
    where "r \<le> length (groups (init_state minterms))"
      and "groups ((round_step ^^ r) (init_state minterms)) = []"
      and "\<forall>j<r. groups ((round_step ^^ j) (init_state minterms)) \<noteq> []"
      and "minimize_loop (init_state minterms) = checked_set ((round_step ^^ r) (init_state minterms))"
    by blast
  with init_groups_length [OF assms] show ?thesis
    unfolding minimize_def by (intro exI [of _ r]) simp
qed

theorem minimize_rounds_bounded_witness:
  "minterms_ok 1 [''0'', ''1''] \<and>
   (\<exists>r\<le>1 + 1. groups ((round_step ^^ r) (init_state [''0'', ''1''])) = [] \<and>
           (\<forall>j<r. groups ((round_step ^^ j) (init_state [''0'', ''1''])) \<noteq> []) \<and>
           minimize [''0'', ''1''] = checked_set ((round_step ^^ r) (init_state [''0'', ''1''])))"
proof -
  have h: "minterms_ok 1 [''0'', ''1'']"
    by (simp add: minterms_ok_def binary_def)
  from minimize_rounds_bounded [OF h] h show ?thesis by blast
qed

text \<open>
  C8. Two input lists with the same set of minterms, in any order and with or without
  repetitions, give the same result set of \<open>minimize\<close>.
\<close>

theorem minimize_input_order:
  assumes "set minterms1 = set minterms2"
  shows "minimize minterms1 = minimize minterms2"
  unfolding minimize_def
  using assms
  by (intro minimize_loop_cong)
     (simp_all add: init_state_def wf_group_by_ones gpairs_group_by_ones)

theorem minimize_input_order_witness:
  "set [''0111'', ''0001'', ''0011'', ''0001''] = set [''0001'', ''0011'', ''0111''] \<and>
   minimize [''0111'', ''0001'', ''0011'', ''0001''] = minimize [''0001'', ''0011'', ''0111'']"
proof -
  have h: "set [''0111'', ''0001'', ''0011'', ''0001''] = set [''0001'', ''0011'', ''0111'']"
    by auto
  from minimize_input_order [OF h] h show ?thesis by blast
qed

end
